theory Spec2Isabelle
  imports Main "HOL-Library.Word" "HOL-Library.Monad_Syntax"
begin

unbundle bit_operations_syntax

section \<open>Data model\<close>

text \<open>
  Every value of \<^verbatim>\<open>miller_rabin.c\<close> is a \<^verbatim>\<open>uint64_t\<close>, modelled as a 64-bit word:
  \<open>+\<close> and \<open>-\<close> wrap modulo \<open>2 ^ 64\<close> as in C, \<open>unat\<close> reads the mathematical value.
  The loop counters \<^verbatim>\<open>i\<close> and \<^verbatim>\<open>j\<close> are \<^verbatim>\<open>unsigned int\<close>, modelled as 32-bit words.

  The result of a function is an \<open>option\<close>: \<open>None\<close> stands for a run that yields no
  value, either because \<^verbatim>\<open>%\<close> is applied to a zero modulus (undefined in C) or, for
  the witness loop, because the loop does not end.
\<close>

type_synonym u64 = "64 word"
type_synonym u32 = "32 word"

text \<open>The C operator \<^verbatim>\<open>x % m\<close> on \<^verbatim>\<open>uint64_t\<close>: no value when \<open>m = 0\<close>.\<close>

definition urem :: "u64 \<Rightarrow> u64 \<Rightarrow> u64 option" where
  "urem x m = (if m = 0 then None else Some (x mod m))"

section \<open>Modular arithmetic\<close>

text \<open>
  \<^verbatim>\<open>mod_add\<close>: both operands are reduced, then \<^verbatim>\<open>a >= m - b\<close> selects
  \<^verbatim>\<open>a - (m - b)\<close> or \<^verbatim>\<open>a + b\<close>.
\<close>

definition mod_add :: "u64 \<Rightarrow> u64 \<Rightarrow> u64 \<Rightarrow> u64 option" where
  "mod_add a b m =
     do { a \<leftarrow> urem a m;
          b \<leftarrow> urem b m;
          if a \<ge> m - b then Some (a - (m - b)) else Some (a + b) }"

text \<open>\<^verbatim>\<open>mod_sub\<close>: \<^verbatim>\<open>m - b + a\<close> when \<^verbatim>\<open>a < b\<close> after reduction, else \<^verbatim>\<open>a - b\<close>.\<close>

definition mod_sub :: "u64 \<Rightarrow> u64 \<Rightarrow> u64 \<Rightarrow> u64 option" where
  "mod_sub a b m =
     do { a \<leftarrow> urem a m;
          b \<leftarrow> urem b m;
          if a < b then Some (m - b + a) else Some (a - b) }"

text \<open>
  The \<^verbatim>\<open>while (b > 0)\<close> loop of \<^verbatim>\<open>mod_mul\<close> (double and add) on the state
  \<open>(r, a, b)\<close>; \<^verbatim>\<open>b >> 1\<close> is \<open>drop_bit 1 b\<close>.
\<close>

function mod_mul_loop :: "u64 \<Rightarrow> u64 \<Rightarrow> u64 \<Rightarrow> u64 \<Rightarrow> u64 option" where
  "mod_mul_loop r a b m =
     (if b > 0 then
        do { r \<leftarrow> (if b AND 1 \<noteq> 0 then mod_add r a m else Some r);
             a \<leftarrow> mod_add a a m;
             mod_mul_loop r a (drop_bit 1 b) m }
      else Some r)"
  by pat_completeness auto
termination
proof (relation "measure (\<lambda>(r, a, b, m). unat b)")
  show "wf (measure (\<lambda>(r, a, b, m). unat b))"
    by simp
next
  fix r a b m :: u64 and x y :: u64
  assume "0 < b"
  then have "unat b \<noteq> 0"
    by (simp add: unat_eq_0 word_neq_0_conv)
  then have "unat b div 2 < unat b"
    by simp
  moreover have "unat (drop_bit 1 b) = unat b div 2"
    by (simp add: drop_bit_eq_div unat_div)
  ultimately have "unat (drop_bit 1 b) < unat b"
    by (simp only:)
  then show "((x, y, drop_bit 1 b, m), r, a, b, m) \<in> measure (\<lambda>(r, a, b, m). unat b)"
    by (simp only: in_measure prod.case)
qed

definition mod_mul :: "u64 \<Rightarrow> u64 \<Rightarrow> u64 \<Rightarrow> u64 option" where
  "mod_mul a b m =
     do { a \<leftarrow> urem a m;
          b \<leftarrow> urem b m;
          mod_mul_loop 0 a b m }"

text \<open>The \<^verbatim>\<open>while (b > 0)\<close> loop of \<^verbatim>\<open>mod_pow\<close> (square and multiply).\<close>

function mod_pow_loop :: "u64 \<Rightarrow> u64 \<Rightarrow> u64 \<Rightarrow> u64 \<Rightarrow> u64 option" where
  "mod_pow_loop r a b m =
     (if b > 0 then
        do { r \<leftarrow> (if b AND 1 \<noteq> 0 then mod_mul r a m else Some r);
             a \<leftarrow> mod_mul a a m;
             mod_pow_loop r a (drop_bit 1 b) m }
      else Some r)"
  by pat_completeness auto
termination
proof (relation "measure (\<lambda>(r, a, b, m). unat b)")
  show "wf (measure (\<lambda>(r, a, b, m). unat b))"
    by simp
next
  fix r a b m :: u64 and x y :: u64
  assume "0 < b"
  then have "unat b \<noteq> 0"
    by (simp add: unat_eq_0 word_neq_0_conv)
  then have "unat b div 2 < unat b"
    by simp
  moreover have "unat (drop_bit 1 b) = unat b div 2"
    by (simp add: drop_bit_eq_div unat_div)
  ultimately have "unat (drop_bit 1 b) < unat b"
    by (simp only:)
  then show "((x, y, drop_bit 1 b, m), r, a, b, m) \<in> measure (\<lambda>(r, a, b, m). unat b)"
    by (simp only: in_measure prod.case)
qed

text \<open>
  \<^verbatim>\<open>mod_pow\<close>: the base is reduced only when \<^verbatim>\<open>a >= m\<close>, the accumulator starts
  at the literal 1, the exponent is used as it is.
\<close>

definition mod_pow :: "u64 \<Rightarrow> u64 \<Rightarrow> u64 \<Rightarrow> u64 option" where
  "mod_pow a b m =
     do { a \<leftarrow> (if a \<ge> m then urem a m else Some a);
          mod_pow_loop 1 a b m }"

section \<open>The Miller-Rabin test\<close>

text \<open>
  Modelled from the spec: the header \<^verbatim>\<open>miller_rabin.h\<close> is not part of the sources.
  It declares the two results \<^verbatim>\<open>PRIME\<close> and \<^verbatim>\<open>COMPOSITE\<close> (a two-valued enumeration in
  the specification) and the length \<^verbatim>\<open>BASELEN\<close> of the table of bases (12, the number
  of initialisers in \<^verbatim>\<open>miller_rabin.c\<close>).
\<close>

datatype result = PRIME | COMPOSITE

definition BASELEN :: u32 where
  "BASELEN = 12"

text \<open>The global table \<^verbatim>\<open>a[BASELEN]\<close>, named \<open>a_tab\<close> here.\<close>

definition a_tab :: "u64 list" where
  "a_tab = [2, 3, 5, 7, 11, 13, 17, 19, 23, 29, 31, 37]"

text \<open>
  The decomposition loop on \<open>(temp, k)\<close>: it leaves at \<^verbatim>\<open>break\<close> when the low bit of
  \<^verbatim>\<open>temp\<close> is set, or when \<^verbatim>\<open>temp >= 1\<close> fails.
\<close>

function decompose_loop :: "u64 \<Rightarrow> u64 \<Rightarrow> u64 \<times> u64" where
  "decompose_loop temp k =
     (if temp \<ge> 1 then
        (if temp AND 1 \<noteq> 0 then (temp, k)
         else decompose_loop (drop_bit 1 temp) (k + 1))
      else (temp, k))"
  by pat_completeness auto
termination
proof (relation "measure (\<lambda>(temp, k). unat temp)")
  show "wf (measure (\<lambda>(temp, k). unat temp))"
    by simp
next
  fix temp k :: u64
  assume "1 \<le> temp"
  then have "unat temp \<noteq> 0"
    by (auto simp: unat_eq_0)
  then have "unat temp div 2 < unat temp"
    by simp
  moreover have "unat (drop_bit 1 temp) = unat temp div 2"
    by (simp add: drop_bit_eq_div unat_div)
  ultimately have "unat (drop_bit 1 temp) < unat temp"
    by (simp only:)
  then show "((drop_bit 1 temp, k + 1), temp, k) \<in> measure (\<lambda>(temp, k). unat temp)"
    by (simp only: in_measure prod.case)
qed

text \<open>
  The values \<open>(q, k)\<close> with which \<^verbatim>\<open>miller_rabin\<close> enters the witness loop:
  \<^verbatim>\<open>temp = n - 1, k = 1\<close>, the loop, then \<^verbatim>\<open>q = temp\<close>.
\<close>

definition decompose :: "u64 \<Rightarrow> u64 \<times> u64" where
  "decompose n = decompose_loop (n - 1) 1"

text \<open>
  The test of the inner loop at index \<open>j\<close> for the base \<open>ai\<close>:
  \<^verbatim>\<open>mod_pow(mod_pow(a[i], q, n), mod_pow(2, j, n), n) == n - 1\<close>.
\<close>

definition square_check :: "u64 \<Rightarrow> u64 \<Rightarrow> u64 \<Rightarrow> u32 \<Rightarrow> bool option" where
  "square_check ai q n j =
     do { x \<leftarrow> mod_pow ai q n;
          e \<leftarrow> mod_pow 2 (ucast j) n;
          y \<leftarrow> mod_pow x e n;
          Some (y = n - 1) }"

text \<open>
  The inner loop \<^verbatim>\<open>for (j = 0; j < k - 1; j++)\<close>, started at \<open>j\<close>: \<open>Some True\<close> when it
  executes \<^verbatim>\<open>return PRIME\<close>, \<open>Some False\<close> when it runs to its end. The counter is a 32-bit
  value compared with the 64-bit \<^verbatim>\<open>k - 1\<close>, so for a large \<open>k\<close> the loop need not end.
\<close>

partial_function (option) inner_loop :: "u64 \<Rightarrow> u64 \<Rightarrow> u64 \<Rightarrow> u64 \<Rightarrow> u32 \<Rightarrow> bool option" where
  "inner_loop ai q n k j =
     (if ucast j < k - 1 then
        do { hit \<leftarrow> square_check ai q n j;
             if hit then Some True else inner_loop ai q n k (j + 1) }
      else Some False)"

declare inner_loop.simps [code]

text \<open>
  The outer loop \<^verbatim>\<open>for (i = 0; i < BASELEN; i++)\<close> over a table \<open>tab\<close>, started at \<open>i\<close>;
  falling out of it is \<^verbatim>\<open>return COMPOSITE\<close>.
\<close>

function witness_loop :: "u64 list \<Rightarrow> u64 \<Rightarrow> u64 \<Rightarrow> u64 \<Rightarrow> u32 \<Rightarrow> result option" where
  "witness_loop tab q n k i =
     (if i < BASELEN then
        do { x \<leftarrow> mod_pow (tab ! unat i) q n;
             if x = 1 then Some PRIME
             else do { hit \<leftarrow> inner_loop (tab ! unat i) q n k 0;
                       if hit then Some PRIME else witness_loop tab q n k (i + 1) } }
      else Some COMPOSITE)"
  by pat_completeness auto
termination
proof (relation "measure (\<lambda>(tab, q, n, k, i). unat BASELEN - unat i)")
  show "wf (measure (\<lambda>(tab, q, n, k, i). unat BASELEN - unat i))"
    by simp
next
  fix tab :: "u64 list" and q n k :: u64 and i :: u32
  assume "i < BASELEN"
  then have lt: "unat i < 12"
    by (simp add: BASELEN_def word_less_nat_alt)
  then have "unat (i + 1) = unat i + 1"
    by (simp add: unat_word_ariths)
  with lt show "((tab, q, n, k, i + 1), tab, q, n, k, i)
                  \<in> measure (\<lambda>(tab, q, n, k, i). unat BASELEN - unat i)"
    by (simp add: BASELEN_def)
qed

definition miller_rabin :: "u64 \<Rightarrow> result option" where
  "miller_rabin n =
     (case decompose n of (q, k) \<Rightarrow> witness_loop a_tab q n k 0)"

text \<open>The loop equations are applied by hand, one iteration at a time.\<close>

declare mod_mul_loop.simps [simp del]
declare mod_pow_loop.simps [simp del]
declare decompose_loop.simps [simp del]
declare witness_loop.simps [simp del]

section \<open>Reference predicates\<close>

text \<open>
  Exactness of the additive steps of \<^verbatim>\<open>mod_add\<close> on the reduced operands: the word
  result of \<^verbatim>\<open>m - b\<close>, and of \<^verbatim>\<open>a - (m - b)\<close> or \<^verbatim>\<open>a + b\<close> in the branch taken, is
  the integer result, so nothing wrapped modulo \<open>2 ^ 64\<close>.
\<close>

definition mod_add_exact :: "u64 \<Rightarrow> u64 \<Rightarrow> u64 \<Rightarrow> bool" where
  "mod_add_exact a b m =
     (let a' = a mod m; b' = b mod m in
        uint (m - b') = uint m - uint b' \<and>
        (if a' \<ge> m - b' then uint (a' - (m - b')) = uint a' - uint (m - b')
         else uint (a' + b') = uint a' + uint b'))"


text \<open>
  The pass condition of a base \<open>ai\<close> as the specification words it:
  \<^verbatim>\<open>mod_pow(ai, q, n) == 1\<close>, or the squaring check equals \<^verbatim>\<open>n - 1\<close> for some index
  \<open>j\<close> in \<open>0 .. k - 2\<close>.
\<close>

definition base_passes :: "u64 \<Rightarrow> u64 \<Rightarrow> u64 \<Rightarrow> u64 \<Rightarrow> bool" where
  "base_passes ai q n k =
     (mod_pow ai q n = Some 1 \<or>
      (\<exists>j \<in> {0 ..< unat (k - 1)}. square_check ai q n (of_nat j) = Some True))"


section \<open>Auxiliary facts on words and naturals\<close>

lemma urem_Some: "m \<noteq> 0 \<Longrightarrow> urem x m = Some (x mod m)"
  by (simp add: urem_def)

lemma unat_mod_less: 
  fixes x m :: u64
  assumes "m \<noteq> 0"
  shows "unat (x mod m) < unat m"
proof -
  from assms have "0 < unat m"
    by (simp add: unat_gt_0)
  then show ?thesis
    by (simp add: unat_mod)
qed

lemma nat_mod_once:
  fixes A B M :: nat
  assumes "A < M" "B < M" "M \<le> A + B"
  shows "(A + B) mod M = A + B - M"
proof -
  from assms have "A + B - M < M" by arith
  then have "(A + B - M) mod M = A + B - M" by simp
  moreover from assms have "(A + B) mod M = (A + B - M) mod M"
    by (simp add: le_mod_geq)
  ultimately show ?thesis by simp
qed

text \<open>The three additive steps of mod_add on reduced operands.\<close>
lemma mod_add_steps:
  fixes a b m :: u64
  assumes a: "a < m" and b: "b < m"
  shows "unat (m - b) = unat m - unat b"
    and "m - b \<le> a \<Longrightarrow> unat (a - (m - b)) = (unat a + unat b) mod unat m"
    and "\<not> m - b \<le> a \<Longrightarrow> unat a + unat b < unat m"
    and "\<not> m - b \<le> a \<Longrightarrow> unat (a + b) = (unat a + unat b) mod unat m"
proof -
  have A: "unat a < unat m" and B: "unat b < unat m"
    using a b by (simp_all add: word_less_nat_alt)
  have M: "unat m < 2 ^ 64"
    using unsigned_less [of m, where 'a = nat] by simp
  show s1: "unat (m - b) = unat m - unat b"
    using b by (simp add: unat_sub less_imp_le)
  {
    assume le: "m - b \<le> a"
    then have ge: "unat m - unat b \<le> unat a"
      using s1 by (simp add: word_le_nat_alt)
    have "unat (a - (m - b)) = unat a - (unat m - unat b)"
      using le s1 by (simp add: unat_sub)
    also have "\<dots> = unat a + unat b - unat m"
      using B by arith
    also have "\<dots> = (unat a + unat b) mod unat m"
      using A B ge by (intro nat_mod_once [symmetric]) arith+
    finally show "unat (a - (m - b)) = (unat a + unat b) mod unat m" .
  }
  {
    assume nle: "\<not> m - b \<le> a"
    then have "unat a < unat m - unat b"
      using s1 by (simp add: word_le_nat_alt)
    then show lt: "unat a + unat b < unat m"
      by arith
    then have "unat a + unat b < 2 ^ LENGTH(64)"
      using M by simp
    then have "unat (a + b) = unat a + unat b"
      by (simp only: unat_add_lem)
    then show "unat (a + b) = (unat a + unat b) mod unat m"
      using lt by simp
  }
qed

lemma mod_add_val:
  assumes "m \<noteq> 0"
  shows "\<exists>r. mod_add a b m = Some r \<and> unat r = (unat a + unat b) mod unat m"
proof -
  let ?a = "a mod m" and ?b = "b mod m"
  have am: "?a < m" and bm: "?b < m"
    using assms by (simp_all add: word_less_nat_alt unat_mod_less)
  have eq: "(unat ?a + unat ?b) mod unat m = (unat a + unat b) mod unat m"
    by (simp add: unat_mod mod_add_eq)
  have def: "mod_add a b m = (if m - ?b \<le> ?a then Some (?a - (m - ?b)) else Some (?a + ?b))"
    using assms by (simp add: mod_add_def urem_Some)
  show ?thesis
  proof (cases "m - ?b \<le> ?a")
    case True
    then show ?thesis
      using def mod_add_steps(2) [OF am bm] eq by simp
  next
    case False
    then show ?thesis
      using def mod_add_steps(4) [OF am bm] eq by simp
  qed
qed

lemma mod_sub_val:
  assumes "m \<noteq> 0"
  shows "\<exists>r. mod_sub a b m = Some r \<and> unat r = (unat a mod unat m + (unat m - unat b mod unat m)) mod unat m"
proof -
  let ?a = "a mod m" and ?b = "b mod m"
  have am: "?a < m" and bm: "?b < m"
    using assms by (simp_all add: word_less_nat_alt unat_mod_less)
  have A: "unat ?a < unat m" and B: "unat ?b < unat m"
    using am bm by (simp_all add: word_less_nat_alt)
  have M: "unat m < 2 ^ 64"
    using unsigned_less [of m, where 'a = nat] by simp
  have s1: "unat (m - ?b) = unat m - unat ?b"
    using bm by (simp add: unat_sub less_imp_le)
  have def: "mod_sub a b m = (if ?a < ?b then Some (m - ?b + ?a) else Some (?a - ?b))"
    using assms by (simp add: mod_sub_def urem_Some)
  show ?thesis
  proof (cases "?a < ?b")
    case True
    then have lt: "unat ?a < unat ?b"
      by (simp add: word_less_nat_alt)
    then have small: "unat (m - ?b) + unat ?a < unat m"
      using s1 B by arith
    then have "unat (m - ?b) + unat ?a < 2 ^ LENGTH(64)"
      using M by simp
    then have "unat (m - ?b + ?a) = unat (m - ?b) + unat ?a"
      by (simp only: unat_add_lem)
    also have "\<dots> = (unat ?a + (unat m - unat ?b)) mod unat m"
      using small s1 by (simp add: add.commute)
    finally show ?thesis
      using def True by (simp add: unat_mod)
  next
    case False
    then have ge: "unat ?b \<le> unat ?a"
      by (simp add: word_less_nat_alt)
    have "unat (?a - ?b) = unat ?a - unat ?b"
      using False by (simp add: unat_sub)
    also have "\<dots> = (unat ?a + (unat m - unat ?b)) mod unat m"
    proof -
      have "unat ?a + (unat m - unat ?b) = (unat ?a - unat ?b) + unat m"
        using ge B by arith
      moreover have "unat ?a - unat ?b < unat m"
        using A by arith
      ultimately show ?thesis by simp
    qed
    finally show ?thesis
      using def False by (simp add: unat_mod)
  qed
qed

lemma low_bit_iff:
  fixes b :: u64
  shows "(b AND 1 \<noteq> 0) = odd (unat b)"
proof -
  have "b AND 1 = b mod 2"
    by (rule and_one_eq)
  moreover have "(b mod 2 = 0) = (unat (b mod 2) = 0)"
    by (simp add: unat_eq_0)
  moreover have "unat (b mod 2) = unat b mod 2"
    by (simp add: unat_mod)
  ultimately show ?thesis
    by (simp add: odd_iff_mod_2_eq_one)
qed

lemma unat_shift1:
  fixes b :: u64
  shows "unat (drop_bit 1 b) = unat b div 2"
  by (simp add: drop_bit_eq_div unat_div)

lemma word_pos_iff:
  fixes b :: u64
  shows "(0 < b) = (0 < unat b)"
  by (simp add: word_less_nat_alt)

lemma less_from_unat_mod:
  fixes x m :: u64
  assumes "m \<noteq> 0" "unat x = N mod unat m"
  shows "x < m"
proof -
  from assms(1) have "0 < unat m" by (simp add: unat_gt_0)
  then have "N mod unat m < unat m" by simp
  with assms(2) show ?thesis by (simp add: word_less_nat_alt)
qed

lemma mul_step_nat:
  fixes R A B M R' A' :: nat
  assumes R': "R' = (if odd B then (R + A) mod M else R)"
      and A': "A' = (A + A) mod M"
  shows "(R' + A' * (B div 2)) mod M = (R + A * B) mod M"
proof -
  have "(R' + A' * (B div 2)) mod M = (R' + (A + A) * (B div 2)) mod M"
    unfolding A' by (metis mod_add_right_eq mod_mult_left_eq)
  also have "\<dots> = (R + A * B) mod M"
  proof (cases "odd B")
    case True
    then obtain H where B: "B = 2 * H + 1"
      by (elim oddE)
    then have H: "B div 2 = H"
      by simp
    have "(R' + (A + A) * H) mod M = ((R + A) mod M + (A + A) * H) mod M"
      using True R' by simp
    also have "\<dots> = (R + A + (A + A) * H) mod M"
      by (simp add: mod_add_left_eq)
    also have "R + A + (A + A) * H = R + A * B"
      unfolding B by (simp add: algebra_simps)
    finally show ?thesis
      using H by simp
  next
    case False
    then have "even B"
      by simp
    then obtain H where B: "B = 2 * H"
      by (elim evenE)
    then have H: "B div 2 = H"
      by simp
    have "R' + (A + A) * H = R + A * B"
      using False R' unfolding B by (simp add: algebra_simps)
    then show ?thesis
      using H by simp
  qed
  finally show ?thesis .
qed

lemma mod_mul_loop_val:
  "m \<noteq> 0 \<Longrightarrow> r < m \<Longrightarrow>
     \<exists>x. mod_mul_loop r a b m = Some x \<and> unat x = (unat r + unat a * unat b) mod unat m"
proof (induction r a b m rule: mod_mul_loop.induct)
  case (1 r a b m)
  note m = \<open>m \<noteq> 0\<close> and r = \<open>r < m\<close>
  have rmod: "unat r mod unat m = unat r"
    using r by (simp add: word_less_nat_alt)
  show ?case
  proof (cases "0 < b")
    case False
    then have "unat b = 0"
      by (simp add: word_pos_iff)
    with False rmod show ?thesis
      by (subst mod_mul_loop.simps) simp
  next
    case True
    have "\<exists>r'. (if b AND 1 \<noteq> 0 then mod_add r a m else Some r) = Some r' \<and>
            unat r' = (if odd (unat b) then (unat r + unat a) mod unat m else unat r)"
    proof (cases "odd (unat b)")
      case True
      with mod_add_val [OF m, of r a] show ?thesis
        by (simp add: low_bit_iff)
    next
      case False
      then show ?thesis
        by (simp add: low_bit_iff)
    qed
    then obtain r' where r': "(if b AND 1 \<noteq> 0 then mod_add r a m else Some r) = Some r'"
      and r'v: "unat r' = (if odd (unat b) then (unat r + unat a) mod unat m else unat r)"
      by blast
    obtain a' where a': "mod_add a a m = Some a'"
      and a'v: "unat a' = (unat a + unat a) mod unat m"
      using mod_add_val [OF m, of a a] by auto
    have "r' < m"
    proof (cases "odd (unat b)")
      case True
      with r'v show ?thesis
        by (intro less_from_unat_mod [OF m, of r' "unat r + unat a"]) simp
    next
      case False
      with r'v r show ?thesis
        by (simp add: word_less_nat_alt)
    qed
    from "1.IH" [OF True r' a' m this]
    obtain x where x: "mod_mul_loop r' a' (drop_bit 1 b) m = Some x"
      and xv: "unat x = (unat r' + unat a' * unat (drop_bit 1 b)) mod unat m"
      by auto
    have "mod_mul_loop r a b m = Some x"
      using True r' a' x by (subst mod_mul_loop.simps) simp
    moreover have "unat x = (unat r + unat a * unat b) mod unat m"
      using xv mul_step_nat [OF r'v a'v] unfolding unat_shift1 by simp
    ultimately show ?thesis by simp
  qed
qed

lemma mod_mul_val:
  assumes "m \<noteq> 0"
  shows "\<exists>r. mod_mul a b m = Some r \<and> unat r = (unat a * unat b) mod unat m"
proof -
  have z: "(0::u64) < m"
    using assms by (simp add: word_neq_0_conv)
  from mod_mul_loop_val [OF assms z, of "a mod m" "b mod m"]
  obtain x where x: "mod_mul_loop 0 (a mod m) (b mod m) m = Some x"
    and xv: "unat x = (unat (a mod m) * unat (b mod m)) mod unat m"
    by auto
  have "mod_mul a b m = Some x"
    using assms x by (simp add: mod_mul_def urem_Some)
  moreover have "unat x = (unat a * unat b) mod unat m"
    using xv by (simp add: unat_mod mod_mult_eq)
  ultimately show ?thesis by simp
qed

lemma pow_step_nat:
  fixes R A B M R' A' :: nat
  assumes R': "R' = (if odd B then (R * A) mod M else R)"
      and A': "A' = (A * A) mod M"
  shows "(R' * A' ^ (B div 2)) mod M = (R * A ^ B) mod M"
proof -
  have sq: "(A' ^ (B div 2)) mod M = (A ^ (2 * (B div 2))) mod M"
    unfolding A' by (simp add: power_mod power_mult power2_eq_square)
  have "(R' * A' ^ (B div 2)) mod M = (R' * (A' ^ (B div 2) mod M)) mod M"
    by (simp add: mod_mult_right_eq)
  also have "\<dots> = (R' * A ^ (2 * (B div 2))) mod M"
    unfolding sq by (simp add: mod_mult_right_eq)
  also have "\<dots> = (R * A ^ B) mod M"
  proof (cases "odd B")
    case True
    then obtain H where B: "B = 2 * H + 1"
      by (elim oddE)
    then have H: "B div 2 = H"
      by simp
    have "(R' * A ^ (2 * H)) mod M = ((R * A) mod M * A ^ (2 * H)) mod M"
      using True R' by simp
    also have "\<dots> = (R * A * A ^ (2 * H)) mod M"
      by (simp add: mod_mult_left_eq)
    also have "R * A * A ^ (2 * H) = R * A ^ B"
      unfolding B by simp
    finally show ?thesis
      using H by simp
  next
    case False
    then have "even B"
      by simp
    then obtain H where B: "B = 2 * H"
      by (elim evenE)
    then have H: "B div 2 = H"
      by simp
    have "R' * A ^ (2 * H) = R * A ^ B"
      using False R' unfolding B by simp
    then show ?thesis
      using H by simp
  qed
  finally show ?thesis .
qed

lemma mod_pow_loop_val:
  "m \<noteq> 0 \<Longrightarrow>
     \<exists>x. mod_pow_loop r a b m = Some x \<and>
         unat x = (if b = 0 then unat r else (unat r * unat a ^ unat b) mod unat m)"
proof (induction r a b m rule: mod_pow_loop.induct)
  case (1 r a b m)
  note m = \<open>m \<noteq> 0\<close>
  show ?case
  proof (cases "0 < b")
    case False
    then have "b = 0"
      by (simp add: word_neq_0_conv [symmetric])
    then show ?thesis
      by (subst mod_pow_loop.simps) simp
  next
    case True
    then have b0: "b \<noteq> 0" and B0: "0 < unat b"
      by (auto simp: word_pos_iff)
    have "\<exists>r'. (if b AND 1 \<noteq> 0 then mod_mul r a m else Some r) = Some r' \<and>
            unat r' = (if odd (unat b) then (unat r * unat a) mod unat m else unat r)"
    proof (cases "odd (unat b)")
      case True
      with mod_mul_val [OF m, of r a] show ?thesis
        by (simp add: low_bit_iff)
    next
      case False
      then show ?thesis
        by (simp add: low_bit_iff)
    qed
    then obtain r' where r': "(if b AND 1 \<noteq> 0 then mod_mul r a m else Some r) = Some r'"
      and r'v: "unat r' = (if odd (unat b) then (unat r * unat a) mod unat m else unat r)"
      by blast
    obtain a' where a': "mod_mul a a m = Some a'"
      and a'v: "unat a' = (unat a * unat a) mod unat m"
      using mod_mul_val [OF m, of a a] by auto
    from "1.IH" [OF True r' a' m]
    obtain x where x: "mod_pow_loop r' a' (drop_bit 1 b) m = Some x"
      and xv: "unat x = (if drop_bit 1 b = 0 then unat r'
                         else (unat r' * unat a' ^ unat (drop_bit 1 b)) mod unat m)"
      by auto
    have run: "mod_pow_loop r a b m = Some x"
      using True r' a' x by (subst mod_pow_loop.simps) simp
    have z: "(drop_bit 1 b = 0) = (unat b div 2 = 0)"
      using unat_shift1 [of b] by (simp only: unat_eq_0 [symmetric])
    have "unat x = (unat r * unat a ^ unat b) mod unat m"
    proof (cases "unat b div 2 = 0")
      case True
      with B0 have "unat b = 1"
        by arith
      with True xv z r'v show ?thesis
        by simp
    next
      case False
      with xv z have "unat x = (unat r' * unat a' ^ (unat b div 2)) mod unat m"
        by (simp only: unat_shift1 if_False)
      with pow_step_nat [OF r'v a'v] show ?thesis
        by simp
    qed
    with run b0 show ?thesis
      by simp
  qed
qed

lemma mod_pow_val:
  assumes "m \<noteq> 0"
  shows "\<exists>x. mod_pow a b m = Some x \<and>
             unat x = (if b = 0 then 1 else unat a ^ unat b mod unat m)"
proof -
  define a' where "a' = (if a \<ge> m then a mod m else a)"
  have red: "(if a \<ge> m then urem a m else Some a) = Some a'"
    using assms by (simp add: a'_def urem_Some)
  have a'v: "unat a' = unat a mod unat m"
    by (simp add: a'_def unat_mod word_le_nat_alt)
  from mod_pow_loop_val [OF assms, of 1 a' b]
  obtain x where x: "mod_pow_loop 1 a' b m = Some x"
    and xv: "unat x = (if b = 0 then unat (1::u64) else (unat (1::u64) * unat a' ^ unat b) mod unat m)"
    by auto
  have "mod_pow a b m = Some x"
    using red x by (simp add: mod_pow_def)
  moreover have "unat x = (if b = 0 then 1 else unat a ^ unat b mod unat m)"
    using xv a'v by (simp add: power_mod)
  ultimately show ?thesis by simp
qed

lemma mod_pow_gt1:
  assumes "1 < m"
  shows "\<exists>x. mod_pow a b m = Some x \<and> unat x = unat a ^ unat b mod unat m"
proof -
  from assms have m: "m \<noteq> 0" and M: "1 < unat m"
    by (auto simp: word_less_nat_alt)
  from mod_pow_val [OF m, of a b] obtain x where x: "mod_pow a b m = Some x"
    and xv: "unat x = (if b = 0 then 1 else unat a ^ unat b mod unat m)"
    by auto
  have "unat x = unat a ^ unat b mod unat m"
  proof (cases "b = 0")
    case True
    with xv M show ?thesis by simp
  next
    case False
    with xv show ?thesis by simp
  qed
  with x show ?thesis by simp
qed

lemma mod_add_exact_all:
  assumes "m \<noteq> 0"
  shows "mod_add_exact a b m"
proof -
  let ?a = "a mod m" and ?b = "b mod m"
  have am: "?a < m" and bm: "?b < m"
    using assms by (simp_all add: word_less_nat_alt unat_mod_less)
  have M: "unat m < 2 ^ 64"
    using unsigned_less [of m, where 'a = nat] by simp
  have s1: "uint (m - ?b) = uint m - uint ?b"
  proof -
    have "unat ?b \<le> unat m"
      using bm by (simp add: word_less_nat_alt)
    then have "int (unat m - unat ?b) = int (unat m) - int (unat ?b)"
      by (rule of_nat_diff)
    then show ?thesis
      by (simp only: uint_nat mod_add_steps(1) [OF am bm])
  qed
  have s2: "uint (?a - (m - ?b)) = uint ?a - uint (m - ?b)" if le: "m - ?b \<le> ?a"
  proof -
    from le have "unat (m - ?b) \<le> unat ?a"
      by (simp add: word_le_nat_alt)
    then have "int (unat ?a - unat (m - ?b)) = int (unat ?a) - int (unat (m - ?b))"
      by (rule of_nat_diff)
    then show ?thesis
      by (simp only: uint_nat unat_sub [OF le])
  qed
  have s3: "uint (?a + ?b) = uint ?a + uint ?b" if nle: "\<not> m - ?b \<le> ?a"
  proof -
    from mod_add_steps(3) [OF am bm nle] M
    have "unat ?a + unat ?b < 2 ^ LENGTH(64)"
      by simp
    then have "unat (?a + ?b) = unat ?a + unat ?b"
      by (simp only: unat_add_lem)
    then show ?thesis
      by (simp only: uint_nat of_nat_add)
  qed
  show ?thesis
    unfolding mod_add_exact_def Let_def using s1 s2 s3 by simp
qed

lemma u64_eq_from_unat:
  fixes r :: u64
  shows "unat r = unat (c :: u64) \<Longrightarrow> r = c"
  by (simp add: word_unat_eq_iff)


section \<open>The modular operations against unbounded arithmetic\<close>

text \<open>
  Claim C8. For every modulus \<open>m > 0\<close> and all \<open>a\<close>, \<open>b\<close> (reduced or not),
  \<^verbatim>\<open>mod_add(a, b, m)\<close> returns \<open>(a mod m + b mod m) mod m\<close> as computed over the natural
  numbers, and each of the machine steps \<^verbatim>\<open>m - b\<close>, \<^verbatim>\<open>a - (m - b)\<close>, \<^verbatim>\<open>a + b\<close> it
  executes yields the exact integer value (no wrap-around modulo \<open>2 ^ 64\<close>).
\<close>

theorem mod_add_reference:
  assumes "0 < m"
  shows "\<exists>r. mod_add a b m = Some r \<and>
             unat r = (unat a mod unat m + unat b mod unat m) mod unat m \<and>
             mod_add_exact a b m"
proof -
  from assms have m: "m \<noteq> 0"
    by (simp add: word_neq_0_conv)
  from mod_add_val [OF m, of a b] mod_add_exact_all [OF m, of a b]
  show ?thesis
    by (simp add: mod_add_eq)
qed

theorem mod_add_reference_witness:
  "(0::u64) < 18446744073709551615 \<and>
   mod_add 18446744073709551614 18446744073709551613 18446744073709551615
     = Some 18446744073709551612 \<and>
   mod_add_exact 18446744073709551614 18446744073709551613 18446744073709551615"
proof -
  have pos: "(0::u64) < 18446744073709551615"
    by simp
  from mod_add_reference [OF pos, of 18446744073709551614 18446744073709551613]
  obtain r where r: "mod_add 18446744073709551614 18446744073709551613 18446744073709551615 = Some r"
    and v: "unat r = (unat (18446744073709551614::u64) mod unat (18446744073709551615::u64)
                 + unat (18446744073709551613::u64) mod unat (18446744073709551615::u64))
                 mod unat (18446744073709551615::u64)"
    and e: "mod_add_exact 18446744073709551614 18446744073709551613 18446744073709551615"
    by blast
  from v have "unat r = unat (18446744073709551612::u64)"
    by simp
  then have "r = 18446744073709551612"
    by (rule u64_eq_from_unat)
  with r e pos show ?thesis
    by simp
qed

text \<open>
  Claim C7. For every modulus \<open>m > 0\<close> and all \<open>a\<close>, \<open>b\<close>, \<^verbatim>\<open>mod_mul(a, b, m)\<close> returns
  \<open>(a * b) mod m\<close> as computed over the natural numbers, also when \<open>a * b\<close> exceeds
  \<open>2 ^ 64 - 1\<close>. The only additions and subtractions \<^verbatim>\<open>mod_mul\<close> performs are those of its
  \<^verbatim>\<open>mod_add\<close> calls at the modulus \<open>m\<close>, and every such call is exact on all operands.
\<close>

theorem mod_mul_reference:
  assumes "0 < m"
  shows "\<exists>r. mod_mul a b m = Some r \<and>
             unat r = (unat a * unat b) mod unat m \<and>
             (\<forall>x y. mod_add_exact x y m)"
proof -
  from assms have m: "m \<noteq> 0"
    by (simp add: word_neq_0_conv)
  from mod_mul_val [OF m, of a b] mod_add_exact_all [OF m]
  show ?thesis
    by simp
qed

theorem mod_mul_reference_witness:
  "(0::u64) < 18446744073709551557 \<and>
   2 ^ 64 \<le> unat (18446744073709551615::u64) * unat (18446744073709551614::u64) \<and>
   mod_mul 18446744073709551615 18446744073709551614 18446744073709551557 = Some 3306"
proof -
  have pos: "(0::u64) < 18446744073709551557"
    by simp
  from mod_mul_reference [OF pos, of 18446744073709551615 18446744073709551614]
  obtain r where r: "mod_mul 18446744073709551615 18446744073709551614 18446744073709551557 = Some r"
    and v: "unat r = (unat (18446744073709551615::u64) * unat (18446744073709551614::u64))
                 mod unat (18446744073709551557::u64)"
    by blast
  from v have "unat r = unat (3306::u64)"
    by simp
  then have "r = 3306"
    by (rule u64_eq_from_unat)
  with r pos show ?thesis
    by simp
qed

text \<open>
  Claim C9. For every modulus \<open>m > 0\<close> and all \<open>a\<close>, \<open>b\<close>, each of \<^verbatim>\<open>mod_add\<close>,
  \<^verbatim>\<open>mod_sub\<close> and \<^verbatim>\<open>mod_mul\<close> returns a value strictly below \<open>m\<close>.
\<close>

theorem modular_results_below_modulus:
  assumes "0 < m"
  shows "(\<exists>r. mod_add a b m = Some r \<and> r < m) \<and>
         (\<exists>r. mod_sub a b m = Some r \<and> r < m) \<and>
         (\<exists>r. mod_mul a b m = Some r \<and> r < m)"
proof -
  from assms have m: "m \<noteq> 0"
    by (simp add: word_neq_0_conv)
  have "\<exists>r. mod_add a b m = Some r \<and> r < m"
    using mod_add_val [OF m, of a b] less_from_unat_mod [OF m] by blast
  moreover have "\<exists>r. mod_sub a b m = Some r \<and> r < m"
    using mod_sub_val [OF m, of a b] less_from_unat_mod [OF m] by blast
  moreover have "\<exists>r. mod_mul a b m = Some r \<and> r < m"
    using mod_mul_val [OF m, of a b] less_from_unat_mod [OF m] by blast
  ultimately show ?thesis
    by simp
qed

theorem modular_results_below_modulus_witness:
  "(0::u64) < 7 \<and>
   (\<exists>r. mod_add 6 6 7 = Some r \<and> r < 7) \<and>
   (\<exists>r. mod_sub 3 5 7 = Some r \<and> r < 7) \<and>
   (\<exists>r. mod_mul 6 6 7 = Some r \<and> r < 7)"
proof -
  have pos: "(0::u64) < 7"
    by simp
  from modular_results_below_modulus [OF pos, of 6 6] modular_results_below_modulus [OF pos, of 3 5]
  show ?thesis
    by simp
qed

section \<open>Exponentiation at the unit modulus\<close>

text \<open>
  Claim C5 (\<^verbatim>\<open>mod_pow(a, b, m)\<close> is \<open>a ^ b mod m\<close> for every \<open>m > 0\<close>) against the code at
  \<open>a = 5\<close>, \<open>b = 0\<close>, \<open>m = 1\<close>: the loop is not entered and the initial accumulator 1
  is returned, while \<open>5 ^ 0 mod 1 = 0\<close>.
\<close>

theorem mod_pow_exponent_0_modulus_1:
  "(0::u64) < 1 \<and> mod_pow 5 0 1 = Some 1 \<and> unat (5::u64) ^ unat (0::u64) mod unat (1::u64) = 0"
proof -
  have "mod_pow 5 0 1 = Some 1"
    by code_simp
  then show ?thesis
    by simp
qed


text \<open>
  Claim C6 (\<^verbatim>\<open>mod_pow(a, 0, m)\<close> is \<^verbatim>\<open>1 % m\<close>, hence 0 when \<open>m = 1\<close>) against the code at
  \<open>a = 2\<close>, \<open>m = 1\<close>: the result is 1, while \<^verbatim>\<open>1 % 1\<close> is 0.
\<close>

theorem mod_pow_zero_exponent_not_reduced:
  "(0::u64) < 1 \<and> mod_pow 2 0 1 = Some 1 \<and> (1::u64) mod 1 = 0"
proof -
  have "mod_pow 2 0 1 = Some 1"
    by code_simp
  then show ?thesis
    by simp
qed

section \<open>The decomposition of \<open>n - 1\<close>\<close>

lemma decompose_loop_val:
  "temp \<noteq> 0 \<Longrightarrow>
     \<exists>t q. decompose_loop temp k = (q, k + of_nat t) \<and> odd (unat q) \<and> unat temp = 2 ^ t * unat q"
proof (induction temp k rule: decompose_loop.induct)
  case (1 temp k)
  from \<open>temp \<noteq> 0\<close> have T0: "0 < unat temp"
    by (simp add: unat_gt_0)
  then have ge: "1 \<le> temp"
    by (simp add: word_le_nat_alt)
  show ?case
  proof (cases "temp AND 1 \<noteq> 0")
    case True
    then have "odd (unat temp)"
      using low_bit_iff [of temp] by simp
    moreover have "decompose_loop temp k = (temp, k + of_nat 0)"
      using ge True by (subst decompose_loop.simps) simp
    ultimately show ?thesis
      by (intro exI [of _ 0] exI [of _ temp]) simp
  next
    case False
    then have ev: "even (unat temp)"
      using low_bit_iff [of temp] by simp
    then obtain H where H: "unat temp = 2 * H"
      by (elim evenE)
    with T0 have H0: "0 < H"
      by simp
    have half: "unat (drop_bit 1 temp) = H"
      using H by (simp only: unat_shift1)
    with H0 have "drop_bit 1 temp \<noteq> 0"
      by (auto simp: unat_eq_0 [symmetric] simp del: unat_eq_0)
    from "1.IH" [OF ge False this]
    obtain t q where run: "decompose_loop (drop_bit 1 temp) (k + 1) = (q, k + 1 + of_nat t)"
      and q: "odd (unat q)" and v: "unat (drop_bit 1 temp) = 2 ^ t * unat q"
      by blast
    have "decompose_loop temp k = (q, k + of_nat (Suc t))"
      using ge False run by (subst decompose_loop.simps) (simp add: add.assoc)
    moreover have "unat temp = 2 ^ Suc t * unat q"
      using H half v by simp
    ultimately show ?thesis
      using q by blast
  qed
qed

lemma decompose_val:
  assumes odd: "odd (unat n)" and big: "1 < n"
  shows "\<exists>q k. decompose n = (q, k) \<and> odd (unat q) \<and> 2 \<le> unat k \<and> unat k \<le> 64 \<and>
               unat n - 1 = 2 ^ (unat k - 1) * unat q"
proof -
  from big have N: "1 < unat n"
    by (simp add: word_less_nat_alt)
  then have n0: "n \<noteq> 0"
    by auto
  have pred: "unat (n - 1) = unat n - 1"
    using n0 by (rule unat_minus_one)
  with N have "n - 1 \<noteq> 0"
    by (auto simp: unat_eq_0 [symmetric] simp del: unat_eq_0)
  from decompose_loop_val [OF this, of 1]
  obtain t q where run: "decompose_loop (n - 1) 1 = (q, 1 + of_nat t)"
    and q: "odd (unat q)" and v: "unat (n - 1) = 2 ^ t * unat q"
    by blast
  have bound: "unat (n - 1) < 2 ^ 64"
    using unsigned_less [of "n - 1", where 'a = nat] by simp
  have Q: "0 < unat q"
    using q by (cases "unat q = 0") simp_all
  have le: "(2::nat) ^ t \<le> 2 ^ t * unat q"
    using Q by simp
  have lt: "2 ^ t * unat q < (2::nat) ^ 64"
    using v bound by (simp only:)
  from le lt have small: "(2::nat) ^ t < 2 ^ 64"
    by (rule le_less_trans)
  have t64: "t < 64"
  proof (rule ccontr)
    assume "\<not> t < 64"
    then have "64 \<le> t"
      by simp
    then have "(2::nat) ^ 64 \<le> 2 ^ t"
      by (rule power_increasing) simp
    with small show False
      by (blast dest: leD)
  qed
  have "t \<noteq> 0"
  proof
    assume "t = 0"
    with v pred q have "odd (unat n - 1)"
      by simp
    with odd N show False
      by simp
  qed
  then have t1: "1 \<le> t"
    by simp
  have "unat (1 + of_nat t :: u64) = Suc t"
  proof -
    have "(1 + of_nat t :: u64) = of_nat (Suc t)"
      by simp
    moreover have "unat (of_nat (Suc t) :: u64) = Suc t"
      using t64 by (simp only: unat_of_nat) simp
    ultimately show ?thesis
      by (simp only:)
  qed
  with run q v pred t1 t64 show ?thesis
    by (simp add: decompose_def)
qed


text \<open>
  Claim C4 (for every odd \<open>n > 3\<close> the decomposition loop leaves \<open>k\<close> and \<open>q\<close> with
  \<open>n - 1 = 2 ^ k * q\<close>) against the code. The comment above the loop asks for
  \<open>n - 1 = 2 ^ k * q\<close> with \<open>k\<close> the number of trailing zero bits of \<open>n - 1\<close>, and gives
  the example 30: \<open>k = 1\<close>, \<open>q = 15\<close>. The loop starts \<open>k\<close> at 1, so it leaves one more:
  at \<open>n = 5\<close> it leaves \<open>q = 1\<close>, \<open>k = 3\<close> and \<open>4 \<noteq> 2 ^ 3 * 1\<close>; at \<open>n = 31\<close>, the
  comment's own example, it leaves \<open>q = 15\<close>, \<open>k = 2\<close> and \<open>30 \<noteq> 2 ^ 2 * 15\<close>.
\<close>

theorem decompose_not_power_k_counterexample:
  "odd (unat (5::u64)) \<and> (3::u64) < 5 \<and> decompose 5 = (1, 3) \<and>
   unat (5::u64) - 1 \<noteq> 2 ^ unat (3::u64) * unat (1::u64) \<and>
   odd (unat (31::u64)) \<and> (3::u64) < 31 \<and> decompose 31 = (15, 2) \<and>
   unat (31::u64) - 1 \<noteq> 2 ^ unat (2::u64) * unat (15::u64) \<and>
   unat (31::u64) - 1 = 2 ^ 1 * unat (15::u64)"
proof -
  have "decompose 5 = (1, 3)"
    by code_simp
  moreover have "decompose 31 = (15, 2)"
    by code_simp
  ultimately show ?thesis
    by simp
qed

section \<open>The witness loop\<close>

lemma unat_ucast_u32:
  fixes j :: u32
  shows "unat (ucast j :: u64) = unat j"
proof -
  have "unat j < 2 ^ 32"
    using unsigned_less [of j, where 'a = nat] by simp
  also have "\<dots> < (2::nat) ^ 64"
    by simp
  finally have "take_bit 64 (unat j) = unat j"
    by (simp only: take_bit_nat_eq_self)
  then show ?thesis
    by (simp add: unsigned_ucast_eq)
qed

lemma square_check_val:
  assumes "1 < n"
  shows "square_check ai q n j =
           Some ((unat ai ^ unat q mod unat n) ^ (2 ^ unat j mod unat n) mod unat n = unat n - 1)"
proof -
  from assms have n0: "n \<noteq> 0"
    by auto
  from mod_pow_gt1 [OF assms, of ai q] obtain x where
    x: "mod_pow ai q n = Some x" and xv: "unat x = unat ai ^ unat q mod unat n"
    by blast
  from mod_pow_gt1 [OF assms, of 2 "ucast j"] obtain e where
    e: "mod_pow 2 (ucast j) n = Some e" and ev: "unat e = 2 ^ unat j mod unat n"
    by (auto simp: unat_ucast_u32)
  from mod_pow_gt1 [OF assms, of x e] obtain y where
    y: "mod_pow x e n = Some y" and yv: "unat y = unat x ^ unat e mod unat n"
    by blast
  have "(y = n - 1) = (unat y = unat n - 1)"
    using unat_minus_one [OF n0] by (simp only: word_unat_eq_iff)
  with x e y show ?thesis
    by (simp add: square_check_def xv ev yv)
qed

lemma square_check_total:
  assumes "1 < n"
  shows "\<exists>h. square_check ai q n j = Some h"
  using square_check_val [OF assms] by simp

lemma inner_loop_val:
  assumes n: "1 < n" and k: "unat (k - 1) < 2 ^ 32"
  shows "inner_loop ai q n k j =
           Some (\<exists>j'. unat j \<le> j' \<and> j' < unat (k - 1) \<and> square_check ai q n (of_nat j') = Some True)"
proof (induction "unat (k - 1) - unat j" arbitrary: j rule: less_induct)
  case less
  have cmp: "(ucast j < k - 1) = (unat j < unat (k - 1))"
    by (simp add: word_less_nat_alt unat_ucast_u32)
  show ?case
  proof (cases "unat j < unat (k - 1)")
    case False
    then have "inner_loop ai q n k j = Some False"
      using cmp by (subst inner_loop.simps) simp
    moreover have "\<not> (\<exists>j'. unat j \<le> j' \<and> j' < unat (k - 1) \<and>
                      square_check ai q n (of_nat j') = Some True)"
      using False by auto
    ultimately show ?thesis
      by simp
  next
    case True
    obtain h where h: "square_check ai q n j = Some h"
      using square_check_total [OF n] by blast
    have self: "(of_nat (unat j) :: u32) = j"
      by simp
    show ?thesis
    proof (cases h)
      case True
      with \<open>unat j < unat (k - 1)\<close> h cmp have "inner_loop ai q n k j = Some True"
        by (subst inner_loop.simps) simp
      moreover have "\<exists>j'. unat j \<le> j' \<and> j' < unat (k - 1) \<and>
                      square_check ai q n (of_nat j') = Some True"
        using \<open>unat j < unat (k - 1)\<close> h True self
        by (intro exI [of _ "unat j"]) simp
      ultimately show ?thesis
        by simp
    next
      case False
      have "unat j + 1 < 2 ^ LENGTH(32)"
        using \<open>unat j < unat (k - 1)\<close> k by simp
      then have suc: "unat (j + 1) = unat j + 1"
        using unat_add_lem [of j 1] by simp
      then have "unat (k - 1) - unat (j + 1) < unat (k - 1) - unat j"
        using \<open>unat j < unat (k - 1)\<close> by simp
      from less [OF this]
      have rec: "inner_loop ai q n k (j + 1) =
           Some (\<exists>j'. unat (j + 1) \<le> j' \<and> j' < unat (k - 1) \<and>
                       square_check ai q n (of_nat j') = Some True)" .
      have step: "inner_loop ai q n k j = inner_loop ai q n k (j + 1)"
        using \<open>unat j < unat (k - 1)\<close> h False cmp by (subst inner_loop.simps) simp
      have "(\<exists>j'. unat j \<le> j' \<and> j' < unat (k - 1) \<and> square_check ai q n (of_nat j') = Some True)
          = (\<exists>j'. unat (j + 1) \<le> j' \<and> j' < unat (k - 1) \<and> square_check ai q n (of_nat j') = Some True)"
        (is "?L = ?R")
      proof
        assume ?L
        then obtain j' where j': "unat j \<le> j'" "j' < unat (k - 1)"
          "square_check ai q n (of_nat j') = Some True"
          by blast
        have "j' \<noteq> unat j"
        proof
          assume "j' = unat j"
          with j'(3) h False self show False
            by simp
        qed
        with j'(1) have "unat (j + 1) \<le> j'"
          using suc by simp
        with j' show ?R
          by blast
      next
        assume ?R
        then obtain j' where j': "unat (j + 1) \<le> j'" "j' < unat (k - 1)"
          "square_check ai q n (of_nat j') = Some True"
          by blast
        from j'(1) have "unat j \<le> j'"
          using suc by simp
        with j' show ?L
          by blast
      qed
      with step rec show ?thesis
        by simp
    qed
  qed
qed

lemma inner_loop_from_0:
  assumes n: "1 < n" and k: "unat (k - 1) < 2 ^ 32"
  shows "inner_loop ai q n k 0 =
           Some (\<exists>j \<in> {0 ..< unat (k - 1)}. square_check ai q n (of_nat j) = Some True)"
  using inner_loop_val [OF n k, of ai q 0] by (simp add: Bex_def)

lemma witness_loop_step:
  assumes n: "1 < n" and k: "unat (k - 1) < 2 ^ 32" and i: "i < BASELEN"
  shows "witness_loop tab q n k i =
           (if base_passes (tab ! unat i) q n k then Some PRIME
            else witness_loop tab q n k (i + 1))"
proof -
  obtain x where x: "mod_pow (tab ! unat i) q n = Some x"
    using mod_pow_gt1 [OF n] by blast
  show ?thesis
    using i x inner_loop_from_0 [OF n k, of "tab ! unat i" q]
    by (subst witness_loop.simps) (simp add: base_passes_def)
qed

lemma witness_loop_val:
  assumes n: "1 < n" and k: "unat (k - 1) < 2 ^ 32"
  shows "witness_loop tab q n k i =
           Some (if \<exists>i'. unat i \<le> i' \<and> i' < 12 \<and> base_passes (tab ! i') q n k
                 then PRIME else COMPOSITE)"
proof (induction "12 - unat i" arbitrary: i rule: less_induct)
  case less
  have cmp: "(i < BASELEN) = (unat i < 12)"
    by (simp add: BASELEN_def word_less_nat_alt)
  show ?case
  proof (cases "unat i < 12")
    case False
    then have "witness_loop tab q n k i = Some COMPOSITE"
      using cmp by (subst witness_loop.simps) simp
    moreover have "\<not> (\<exists>i'. unat i \<le> i' \<and> i' < 12 \<and> base_passes (tab ! i') q n k)"
      using False by auto
    ultimately show ?thesis
      by simp
  next
    case True
    then have lt: "i < BASELEN"
      using cmp by simp
    show ?thesis
    proof (cases "base_passes (tab ! unat i) q n k")
      case True
      then have "witness_loop tab q n k i = Some PRIME"
        using witness_loop_step [OF n k lt] by simp
      moreover have "\<exists>i'. unat i \<le> i' \<and> i' < 12 \<and> base_passes (tab ! i') q n k"
        using True \<open>unat i < 12\<close> by (intro exI [of _ "unat i"]) simp
      ultimately show ?thesis
        by simp
    next
      case False
      have "unat i + 1 < 2 ^ LENGTH(32)"
        using \<open>unat i < 12\<close> by simp
      then have suc: "unat (i + 1) = unat i + 1"
        using unat_add_lem [of i 1] by simp
      then have "12 - unat (i + 1) < 12 - unat i"
        using \<open>unat i < 12\<close> by simp
      from less [OF this]
      have rec: "witness_loop tab q n k (i + 1) =
           Some (if \<exists>i'. unat (i + 1) \<le> i' \<and> i' < 12 \<and> base_passes (tab ! i') q n k
                 then PRIME else COMPOSITE)" .
      have step: "witness_loop tab q n k i = witness_loop tab q n k (i + 1)"
        using witness_loop_step [OF n k lt] False by simp
      have "(\<exists>i'. unat i \<le> i' \<and> i' < 12 \<and> base_passes (tab ! i') q n k)
          = (\<exists>i'. unat (i + 1) \<le> i' \<and> i' < 12 \<and> base_passes (tab ! i') q n k)"
        (is "?L = ?R")
      proof
        assume ?L
        then obtain i' where i': "unat i \<le> i'" "i' < 12" "base_passes (tab ! i') q n k"
          by blast
        with False have "i' \<noteq> unat i"
          by auto
        with i'(1) have "unat (i + 1) \<le> i'"
          using suc by simp
        with i' show ?R
          by blast
      next
        assume ?R
        then obtain i' where i': "unat (i + 1) \<le> i'" "i' < 12" "base_passes (tab ! i') q n k"
          by blast
        from i'(1) have "unat i \<le> i'"
          using suc by simp
        with i' show ?L
          by blast
      qed
      with step rec show ?thesis
        by simp
    qed
  qed
qed

text \<open>
  Claim C10. For every odd \<open>n > 3\<close> and every index \<open>j\<close> the inner loop uses
  (\<^verbatim>\<open>j < k - 1\<close> for the \<open>k\<close> of the decomposition loop), \<open>2 ^ j < n\<close>; hence
  \<^verbatim>\<open>mod_pow(2, j, n)\<close> is \<open>2 ^ j\<close> itself and the check of the inner loop compares
  \<open>ai ^ (q * 2 ^ j) mod n\<close> with \<open>n - 1\<close>.
\<close>

theorem inner_exponent_exact:
  assumes "odd (unat n)" and "3 < n" and "decompose n = (q, k)" and "ucast j < k - 1"
  shows "2 ^ unat j < unat n \<and>
         (\<exists>e. mod_pow 2 (ucast j) n = Some e \<and> unat e = 2 ^ unat j) \<and>
         square_check ai q n j = Some (unat ai ^ (unat q * 2 ^ unat j) mod unat n = unat n - 1)"
proof -
  from \<open>3 < n\<close> have n: "1 < n" and N: "3 < unat n"
    by (simp_all add: word_less_nat_alt)
  from decompose_val [OF assms(1) n] assms(3)
  have q: "odd (unat q)" and k2: "2 \<le> unat k"
    and v: "unat n - 1 = 2 ^ (unat k - 1) * unat q"
    by auto
  from k2 have "k \<noteq> 0"
    by auto
  then have km: "unat (k - 1) = unat k - 1"
    by (rule unat_minus_one)
  from assms(4) have j: "unat j < unat k - 1"
    by (simp add: word_less_nat_alt unat_ucast_u32 km)
  then have "(2::nat) ^ unat j < 2 ^ (unat k - 1)"
    by (rule power_strict_increasing) simp
  also have "\<dots> \<le> 2 ^ (unat k - 1) * unat q"
    using q by (cases "unat q = 0") simp_all
  also have "\<dots> < unat n"
    using v N by simp
  finally have small: "2 ^ unat j < unat n" .
  then have red: "2 ^ unat j mod unat n = 2 ^ unat j"
    by simp
  from mod_pow_gt1 [OF n, of 2 "ucast j"] red
  have e: "\<exists>e. mod_pow 2 (ucast j) n = Some e \<and> unat e = 2 ^ unat j"
    by (simp add: unat_ucast_u32)
  have "(unat ai ^ unat q mod unat n) ^ (2 ^ unat j) mod unat n
          = unat ai ^ (unat q * 2 ^ unat j) mod unat n"
    by (simp add: power_mod power_mult)
  then have "square_check ai q n j =
      Some (unat ai ^ (unat q * 2 ^ unat j) mod unat n = unat n - 1)"
    using square_check_val [OF n, of ai q j] red by simp
  with small e show ?thesis
    by simp
qed

theorem inner_exponent_exact_witness:
  "odd (unat (5::u64)) \<and> (3::u64) < 5 \<and> decompose 5 = (1, 3) \<and> ucast (1::u32) < (3::u64) - 1 \<and>
   2 ^ unat (1::u32) < unat (5::u64) \<and>
   square_check 2 1 5 1 = Some True"
proof -
  have a: "odd (unat (5::u64))" and b: "(3::u64) < 5" and d: "ucast (1::u32) < (3::u64) - 1"
    by simp_all
  have c: "decompose 5 = (1, 3)"
    by code_simp
  from inner_exponent_exact [OF a b c d, of 2] a b c d show ?thesis
    by simp
qed


text \<open>
  Claim C3. For every odd \<open>n > 3\<close>, with \<open>(q, k)\<close> from the decomposition loop,
  \<^verbatim>\<open>miller_rabin(n)\<close> returns \<^verbatim>\<open>PRIME\<close> exactly when one of the twelve bases of the table
  satisfies the pass condition, and \<^verbatim>\<open>COMPOSITE\<close> exactly when none does. Once the base at
  index \<open>i\<close> passes, the result is \<^verbatim>\<open>PRIME\<close> for every table that agrees with the
  table of bases up to index \<open>i\<close>: the entries after a passing base, in particular after
  the first one, are not consulted.
\<close>

theorem miller_rabin_first_passing_base:
  assumes "odd (unat n)" and "3 < n" and "decompose n = (q, k)"
  shows "(miller_rabin n = Some PRIME) = (\<exists>i<12. base_passes (a_tab ! i) q n k) \<and>
         (miller_rabin n = Some COMPOSITE) = (\<forall>i<12. \<not> base_passes (a_tab ! i) q n k) \<and>
         (\<forall>i<12. base_passes (a_tab ! i) q n k \<longrightarrow>
            (\<forall>tab. take (Suc i) tab = take (Suc i) a_tab \<longrightarrow>
                   witness_loop tab q n k 0 = Some PRIME))"
proof -
  from \<open>3 < n\<close> have n: "1 < n"
    by (simp add: word_less_nat_alt)
  from decompose_val [OF assms(1) n] assms(3)
  have k2: "2 \<le> unat k" and k64: "unat k \<le> 64"
    by auto
  from k2 have "k \<noteq> 0"
    by auto
  then have "unat (k - 1) = unat k - 1"
    by (rule unat_minus_one)
  with k64 have k: "unat (k - 1) < 2 ^ 32"
    by simp
  have loop: "witness_loop tab q n k 0 =
       Some (if \<exists>i<12. base_passes (tab ! i) q n k then PRIME else COMPOSITE)" for tab
    using witness_loop_val [OF n k, of tab q 0] by simp
  have run: "miller_rabin n = witness_loop a_tab q n k 0"
    using assms(3) by (simp add: miller_rabin_def)
  have 1: "(miller_rabin n = Some PRIME) = (\<exists>i<12. base_passes (a_tab ! i) q n k)"
    unfolding run loop by simp
  have 2: "(miller_rabin n = Some COMPOSITE) = (\<forall>i<12. \<not> base_passes (a_tab ! i) q n k)"
    unfolding run loop by simp
  have 3: "witness_loop tab q n k 0 = Some PRIME"
    if i: "i < 12" and pass: "base_passes (a_tab ! i) q n k"
      and pre: "take (Suc i) tab = take (Suc i) a_tab" for i tab
  proof -
    have "tab ! i = take (Suc i) tab ! i"
      by simp
    also have "\<dots> = a_tab ! i"
      unfolding pre by simp
    finally have "base_passes (tab ! i) q n k"
      using pass by simp
    with i have "\<exists>i<12. base_passes (tab ! i) q n k"
      by blast
    then show ?thesis
      unfolding loop by simp
  qed
  from 1 2 3 show ?thesis
    by blast
qed

theorem miller_rabin_first_passing_base_witness:
  "odd (unat (9::u64)) \<and> (3::u64) < 9 \<and> decompose 9 = (1, 4) \<and>
   base_passes (a_tab ! 6) 1 9 4 \<and>
   miller_rabin 9 = Some PRIME \<and>
   witness_loop [2, 3, 5, 7, 11, 13, 17] 1 9 4 0 = Some PRIME"
proof -
  have a: "odd (unat (9::u64))" and b: "(3::u64) < 9"
    by simp_all
  have c: "decompose 9 = (1, 4)"
    by code_simp
  have p: "base_passes (a_tab ! 6) 1 9 4"
    by code_simp
  have t: "take (Suc 6) [2, 3, 5, 7, 11, 13, 17] = take (Suc 6) a_tab"
    by (simp add: a_tab_def)
  note r = miller_rabin_first_passing_base [OF a b c]
  have six: "(6::nat) < 12"
    by simp
  from r six p have "miller_rabin 9 = Some PRIME"
    by blast
  moreover from r six p t have "witness_loop [2, 3, 5, 7, 11, 13, 17] 1 9 4 0 = Some PRIME"
    by blast
  ultimately show ?thesis
    using a b c p by (simp only: simp_thms)
qed


text \<open>
  Claim C1 (\<^verbatim>\<open>miller_rabin\<close> returns \<^verbatim>\<open>COMPOSITE\<close> for every odd composite \<open>n > 3\<close>) against
  the code at \<open>n = 15 = 3 * 5\<close> (\<open>q = 7\<close>, \<open>k = 2\<close>): the base 29 is congruent to
  \<open>- 1\<close> modulo 15, its squaring check at \<open>j = 0\<close> succeeds, and the function returns
  \<^verbatim>\<open>PRIME\<close>.
\<close>

theorem miller_rabin_15_PRIME:
  "odd (unat (15::u64)) \<and> (3::u64) < 15 \<and> unat (15::u64) = 3 * 5 \<and> miller_rabin 15 = Some PRIME"
proof -
  have "miller_rabin 15 = Some PRIME"
    by code_simp
  then show ?thesis
    by simp
qed


text \<open>
  Claim C2 (\<^verbatim>\<open>miller_rabin(9)\<close> returns \<^verbatim>\<open>COMPOSITE\<close>) against the code: the base 17 is
  congruent to \<open>- 1\<close> modulo 9, its squaring check at \<open>j = 0\<close> succeeds, and the function
  returns \<^verbatim>\<open>PRIME\<close>.
\<close>

theorem miller_rabin_9_PRIME:
  "miller_rabin 9 = Some PRIME"
  by code_simp

end
